theory Spec2Isabelle
  imports Main "HOL-Library.Multiset"
begin

section \<open>Messages, topology and serialisation\<close>

text \<open>
  A \<open>Message\<close> is an addressed, sized buffer tagged with its channel. On a message created
  with \<open>CreateMessage\<close> the field \<open>peer\<close> is the target; on a message handed to
  \<open>HandleMessage\<close> it is the sender. The payload type \<open>'b\<close> stands for the byte buffer.
\<close>

record 'b Message =
  channel :: int
  peer :: int
  data_size :: nat
  data :: 'b

text \<open>
  Modelled from the spec: the topology queries \<open>rpc::parent()\<close>, \<open>rpc::is_root()\<close>,
  \<open>rpc::n_children()\<close> and \<open>rpc::child(i)\<close> are declared in \<open>rpc_sock.h\<close>, which is not
  part of the sources at hand. They are a read-only per-process view: the parent id, the
  root flag and the ordered list of child ids.
\<close>

record Topology =
  parent :: int
  is_root :: bool
  children :: "int list"

definition n_children :: "Topology \<Rightarrow> int" where
  "n_children T = int (length (children T))"

definition child :: "Topology \<Rightarrow> nat \<Rightarrow> int" where
  "child T i = children T ! i"

text \<open>
  Modelled from the spec: the serialisation collaborator \<open>ot::PointerFrozenSize\<close>,
  \<open>ot::PointerFreeze\<close> and \<open>ot::PointerThaw\<close> is taken as a parameter.
\<close>

record ('d, 'b) ot =
  PointerFrozenSize :: "'d \<Rightarrow> nat"
  PointerFreeze :: "'d \<Rightarrow> 'b"
  PointerThaw :: "'b \<Rightarrow> 'd"

definition roundtrip :: "('d, 'b) ot \<Rightarrow> bool" where
  "roundtrip ser = (\<forall>x. PointerThaw ser (PointerFreeze ser x) = x)"

section \<open>Effects and fatal errors\<close>

text \<open>
  Every call of the code that reaches outside the transaction (the transport, the channel
  registry, the lock and condition, the heap, user code) is recorded, in program order, in
  the transaction's trace.
\<close>

datatype 'b action =
    Transaction_Init int
  | CreateMessage int nat
  | Freeze
  | Thaw
  | Construct
  | HandleRequest_call
  | Reduce_call
  | Send "'b Message"
  | Delete "'b Message"
  | Delete_this
  | Done
  | Done_peer int
  | Register int
  | Unregister int
  | Lock
  | Unlock
  | Wait
  | Signal
  | Cond_Done

text \<open>
  Modelled from the spec: the macro \<open>FATAL\<close> comes from the base headers, which are not part
  of the sources at hand; it aborts the process with a diagnostic, here the peer and the
  channel that the format string of the call names. The two crashes stand for the
  undefined behaviour of reading a slot that is out of range or \<open>NULL\<close>.
\<close>

datatype error =
    FATAL_unexpected_peer int int
  | FATAL_multiple_messages int int
  | FATAL_virtuality_sucks
  | Crash_out_of_range
  | Crash_null_slot

text \<open>
  Modelled from the spec: the base class \<open>Transaction\<close> is declared in \<open>rpc_sock.h\<close>, which is
  not part of the sources at hand. A transaction is bound to one channel by \<open>Init\<close>;
  \<open>CreateMessage\<close> gives a message on that channel for a peer, \<open>Send\<close> hands a message to the
  transport, \<open>Done\<close> tells the transport that no message is expected any more (from one
  peer, or at all). These calls, and those of \<open>Mutex\<close>, \<open>WaitCondition\<close> and \<open>DoneCondition\<close>,
  return; they show as actions in the trace.

  The members of the C++ classes keep their names without the trailing underscore
  (\<open>received_\<close> is \<open>received\<close>); the members \<open>channel_\<close> of \<open>Transaction\<close> and \<open>data_\<close> of
  \<open>ReduceTransaction\<close> are \<open>t_channel\<close> and \<open>t_data\<close>, since \<open>channel\<close> and \<open>data\<close> are
  fields of \<open>Message\<close>. \<open>CheckStatus_\<close> is \<open>CheckStatus\<close>.
\<close>

record 'b Transaction =
  t_channel :: int
  trace :: "'b action list"

definition emit :: "'b action list \<Rightarrow> ('b, 'z) Transaction_scheme \<Rightarrow> ('b, 'z) Transaction_scheme" where
  "emit as t = t\<lparr>trace := trace t @ as\<rparr>"

fun sent :: "'b action list \<Rightarrow> 'b Message list" where
  "sent [] = []"
| "sent (Send m # as) = m # sent as"
| "sent (_ # as) = sent as"

section \<open>The reduction transaction\<close>

text \<open>
  A slot of \<open>received\<close> is \<open>None\<close> for \<open>NULL\<close>. The counter \<open>n_received\<close> is an \<open>int\<close> of the
  code that is compared with the child count; \<open>cond\<close> is the flag of the \<open>DoneCondition\<close>.
  \<open>delete received_[i]\<close> frees the message and leaves the pointer in the slot.
\<close>

record ('d, 'b) ReduceTransaction = "'b Transaction" +
  received :: "'b Message option list"
  n_received :: int
  t_data :: 'd
  cond :: bool

type_synonym 'd reductor = "'d \<Rightarrow> 'd \<Rightarrow> 'd"

type_synonym ('d, 'b) reduce_result =
  "(error \<times> ('d, 'b) ReduceTransaction) + ('d, 'b) ReduceTransaction"

text \<open>The loop of \<open>CheckStatus\<close> over the child indices \<open>0, 1, ..., n - 1\<close>.\<close>

fun reduce_received :: "'d reductor \<Rightarrow> ('d, 'b) ot \<Rightarrow> nat list \<Rightarrow>
    ('d, 'b) ReduceTransaction \<Rightarrow> ('d, 'b) reduce_result" where
  "reduce_received Reduce ser [] t = Inr t"
| "reduce_received Reduce ser (i # is) t =
     (if \<not> i < length (received t) then Inl (Crash_out_of_range, t)
      else case received t ! i of
        None \<Rightarrow> Inl (Crash_null_slot, t)
      | Some m \<Rightarrow>
          reduce_received Reduce ser is
            (emit [Thaw, Reduce_call, Delete m]
               (t\<lparr>t_data := Reduce (PointerThaw ser (data m)) (t_data t)\<rparr>)))"

definition CheckStatus :: "Topology \<Rightarrow> 'd reductor \<Rightarrow> ('d, 'b) ot \<Rightarrow>
    ('d, 'b) ReduceTransaction \<Rightarrow> ('d, 'b) reduce_result" where
  "CheckStatus T Reduce ser t =
     (if n_received t = n_children T then
        case reduce_received Reduce ser [0 ..< nat (n_children T)] t of
          Inl e \<Rightarrow> Inl e
        | Inr t1 \<Rightarrow>
            let t2 =
              (if \<not> is_root T then
                 emit [CreateMessage (parent T) (PointerFrozenSize ser (t_data t1)), Freeze,
                       Send \<lparr>channel = t_channel t1, peer = parent T,
                             data_size = PointerFrozenSize ser (t_data t1),
                             data = PointerFreeze ser (t_data t1)\<rparr>] t1
               else t1)
            in Inr (emit [Unregister (t_channel t2), Done, Cond_Done] (t2\<lparr>cond := True\<rparr>))
      else Inr t)"

definition ReduceTransaction_Init :: "Topology \<Rightarrow> 'd reductor \<Rightarrow> ('d, 'b) ot \<Rightarrow>
    int \<Rightarrow> 'd \<Rightarrow> ('d, 'b) reduce_result" where
  "ReduceTransaction_Init T Reduce ser channel_num data_inout =
     CheckStatus T Reduce ser
       \<lparr>t_channel = channel_num, trace = [Transaction_Init channel_num],
        received = replicate (nat (n_children T)) None,
        n_received = 0, t_data = data_inout, cond = False\<rparr>"

text \<open>
  The search loop of \<open>HandleMessage\<close>, \<open>for (i = n; i--;) if (peer == child(i)) break;\<close>.
  The second argument is the value of \<open>i\<close> when the loop condition is evaluated; the result is
  the value of \<open>i\<close> after the loop, \<open>-1\<close> when no child matched.
\<close>

primrec find_child :: "Topology \<Rightarrow> nat \<Rightarrow> int \<Rightarrow> int" where
  "find_child T 0 p = - 1"
| "find_child T (Suc i) p = (if p = child T i then int i else find_child T i p)"

definition ReduceTransaction_HandleMessage :: "Topology \<Rightarrow> 'd reductor \<Rightarrow> ('d, 'b) ot \<Rightarrow>
    ('d, 'b) ReduceTransaction \<Rightarrow> 'b Message \<Rightarrow> ('d, 'b) reduce_result" where
  "ReduceTransaction_HandleMessage T Reduce ser t message =
     (let i = find_child T (nat (n_children T)) (peer message) in
      if i < 0 then Inl (FATAL_unexpected_peer (peer message) (t_channel t), t)
      else if \<not> nat i < length (received t) then Inl (Crash_out_of_range, t)
      else if received t ! nat i \<noteq> None then
        Inl (FATAL_multiple_messages (peer message) (t_channel t), t)
      else
        CheckStatus T Reduce ser
          (emit [Done_peer (peer message)]
             (t\<lparr>received := (received t)[nat i := Some message]\<rparr>)
           \<lparr>n_received := n_received t + 1\<rparr>))"

text \<open>
  Messages handed to the transaction one after the other by the dispatch context; the
  first abort ends the run.
\<close>

fun HandleMessages :: "Topology \<Rightarrow> 'd reductor \<Rightarrow> ('d, 'b) ot \<Rightarrow>
    ('d, 'b) ReduceTransaction \<Rightarrow> 'b Message list \<Rightarrow> ('d, 'b) reduce_result" where
  "HandleMessages T Reduce ser t [] = Inr t"
| "HandleMessages T Reduce ser t (m # ms) =
     (case ReduceTransaction_HandleMessage T Reduce ser t m of
        Inl e \<Rightarrow> Inl e
      | Inr t' \<Rightarrow> HandleMessages T Reduce ser t' ms)"

definition Init_then :: "Topology \<Rightarrow> 'd reductor \<Rightarrow> ('d, 'b) ot \<Rightarrow> int \<Rightarrow> 'd \<Rightarrow>
    'b Message list \<Rightarrow> ('d, 'b) reduce_result" where
  "Init_then T Reduce ser channel_num data_inout ms =
     (case ReduceTransaction_Init T Reduce ser channel_num data_inout of
        Inl e \<Rightarrow> Inl e
      | Inr t \<Rightarrow> HandleMessages T Reduce ser t ms)"

section \<open>The reduction channel\<close>

text \<open>
  A blocking call either returns, or aborts the process, or never returns because the
  messages that would wake it never come.
\<close>

datatype ('r, 's) outcome = Returns 'r | Blocks 's | Aborts error 's

definition ReduceChannel_Init :: "Topology \<Rightarrow> 'd reductor \<Rightarrow> ('d, 'b) ot \<Rightarrow>
    int \<Rightarrow> 'd \<Rightarrow> ('d, 'b) reduce_result" where
  "ReduceChannel_Init T Reduce ser channel_num data_inout =
     (case ReduceTransaction_Init T Reduce ser channel_num data_inout of
        Inl e \<Rightarrow> Inl e
      | Inr t \<Rightarrow> Inr (emit [Register channel_num] t))"

text \<open>
  \<open>Wait\<close> blocks the caller on the completion signal \<open>cond\<close>. While it is blocked, the
  dispatch context hands the arriving messages to \<open>HandleMessage\<close>, in their order of
  arrival; when none is left and the signal is not set, the caller stays blocked.
\<close>

fun ReduceChannel_Wait :: "Topology \<Rightarrow> 'd reductor \<Rightarrow> ('d, 'b) ot \<Rightarrow>
    ('d, 'b) ReduceTransaction \<Rightarrow> 'b Message list \<Rightarrow>
    (('d, 'b) ReduceTransaction, ('d, 'b) ReduceTransaction) outcome" where
  "ReduceChannel_Wait T Reduce ser t [] = (if cond t then Returns t else Blocks t)"
| "ReduceChannel_Wait T Reduce ser t (m # ms) =
     (if cond t then Returns t
      else case ReduceTransaction_HandleMessage T Reduce ser t m of
        Inl (e, t') \<Rightarrow> Aborts e t'
      | Inr t' \<Rightarrow> ReduceChannel_Wait T Reduce ser t' ms)"

definition ReduceChannel_Doit :: "Topology \<Rightarrow> 'd reductor \<Rightarrow> ('d, 'b) ot \<Rightarrow>
    int \<Rightarrow> 'd \<Rightarrow> 'b Message list \<Rightarrow>
    (('d, 'b) ReduceTransaction, ('d, 'b) ReduceTransaction) outcome" where
  "ReduceChannel_Doit T Reduce ser channel_num data_inout arrivals =
     (case ReduceChannel_Init T Reduce ser channel_num data_inout of
        Inl (e, t) \<Rightarrow> Aborts e t
      | Inr t \<Rightarrow> ReduceChannel_Wait T Reduce ser t arrivals)"

text \<open>\<open>rpc::Reduce\<close>: the caller's value on exit, when the call returns.\<close>

definition rpc_Reduce :: "Topology \<Rightarrow> 'd reductor \<Rightarrow> ('d, 'b) ot \<Rightarrow>
    int \<Rightarrow> 'd \<Rightarrow> 'b Message list \<Rightarrow> ('d, ('d, 'b) ReduceTransaction) outcome" where
  "rpc_Reduce T Reduce ser channel_num v arrivals =
     (case ReduceChannel_Doit T Reduce ser channel_num v arrivals of
        Returns t \<Rightarrow> Returns (t_data t)
      | Blocks t \<Rightarrow> Blocks t
      | Aborts e t \<Rightarrow> Aborts e t)"

section \<open>A reduction over the whole spanning tree\<close>

text \<open>
  The processes of a reduction: each node has its process id, its contribution and its
  children in child-index order.
\<close>

datatype 'd ptree = PNode (pid: int) (contribution: 'd) (subtrees: "'d ptree list")

fun state_of :: "('s, 's) outcome \<Rightarrow> 's" where
  "state_of (Returns t) = t"
| "state_of (Blocks t) = t"
| "state_of (Aborts e t) = t"

text \<open>
  Modelled from the spec: the transport (\<open>rpc_sock\<close>) is not part of the sources at hand. A
  message that process \<open>sender\<close> created for \<open>target\<close> and sent reaches \<open>target\<close> with the
  sender's id in its \<open>peer\<close> field.
\<close>

definition deliveries :: "int \<Rightarrow> int \<Rightarrow> 'b action list \<Rightarrow> 'b Message list" where
  "deliveries sender target tr =
     map (\<lambda>m. m\<lparr>peer := sender\<rparr>) (filter (\<lambda>m. peer m = target) (sent tr))"

text \<open>
  Every process of the tree calls \<open>rpc::Reduce\<close>. What a process receives is what its
  children sent to it; \<open>arrival p\<close> puts the messages for process \<open>p\<close> in their order of
  arrival.
\<close>

fun Reduce_tree :: "'d reductor \<Rightarrow> ('d, 'b) ot \<Rightarrow> int \<Rightarrow>
    (int \<Rightarrow> 'b Message list \<Rightarrow> 'b Message list) \<Rightarrow> int \<Rightarrow> bool \<Rightarrow> 'd ptree \<Rightarrow>
    (('d, 'b) ReduceTransaction, ('d, 'b) ReduceTransaction) outcome" where
  "Reduce_tree Reduce ser channel_num arrival par root (PNode p v cs) =
     ReduceChannel_Doit \<lparr>parent = par, is_root = root, children = map pid cs\<rparr>
       Reduce ser channel_num v
       (arrival p (concat (map (\<lambda>c. deliveries (pid c) p
          (trace (state_of (Reduce_tree Reduce ser channel_num arrival p False c)))) cs)))"

fun value_of :: "(('d, 'b) ReduceTransaction, ('d, 'b) ReduceTransaction) outcome \<Rightarrow> 'd option" where
  "value_of (Returns t) = Some (t_data t)"
| "value_of _ = None"

fun descendants :: "'d ptree \<Rightarrow> (int \<times> 'd ptree) list" where
  "descendants (PNode p v cs) = concat (map (\<lambda>c. (p, c) # descendants c) cs)"

fun distinct_children :: "'d ptree \<Rightarrow> bool" where
  "distinct_children (PNode p v cs) =
     (distinct (map pid cs) \<and> list_all distinct_children cs)"

text \<open>
  The reductor as a binary operator with the accumulator on the left,
  \<open>Reduce(right_hand, left_hand_to_modify)\<close>, and the product of a list of contributions.
\<close>

definition oplus :: "'d reductor \<Rightarrow> 'd \<Rightarrow> 'd \<Rightarrow> 'd" where
  "oplus Reduce a b = Reduce b a"

definition associative :: "('d \<Rightarrow> 'd \<Rightarrow> 'd) \<Rightarrow> bool" where
  "associative f = (\<forall>a b c. f (f a b) c = f a (f b c))"

fun product :: "('d \<Rightarrow> 'd \<Rightarrow> 'd) \<Rightarrow> 'd list \<Rightarrow> 'd option" where
  "product f [] = None"
| "product f (x # xs) = Some (foldl f x xs)"

fun preorder :: "'d ptree \<Rightarrow> 'd list" where
  "preorder (PNode p v cs) = v # concat (map preorder cs)"

text \<open>
  The traversal in the words of the specification: children before the parent, children
  visited by increasing index.
\<close>

fun postorder :: "'d ptree \<Rightarrow> 'd list" where
  "postorder (PNode p v cs) = concat (map postorder cs) @ [v]"

text \<open>The value of a subtree, as the code computes it, without any assumption on the reductor.\<close>

fun subtree_value :: "'d reductor \<Rightarrow> 'd ptree \<Rightarrow> 'd" where
  "subtree_value Reduce (PNode p v cs) =
     foldl (\<lambda>acc c. Reduce (subtree_value Reduce c) acc) v cs"

section \<open>The blocking client call\<close>

record 'b RpcRequestTransaction = "'b Transaction" +
  response :: "'b Message option"

definition RpcRequestTransaction_HandleMessage ::
    "'b RpcRequestTransaction \<Rightarrow> 'b Message \<Rightarrow> 'b RpcRequestTransaction" where
  "RpcRequestTransaction_HandleMessage t message =
     emit [Signal, Unlock] ((emit [Done, Lock] t)\<lparr>response := Some message\<rparr>)"

text \<open>\<open>Doit\<close> up to and including \<open>Send(message)\<close>.\<close>

definition Doit_send :: "('q, 'b) ot \<Rightarrow> int \<Rightarrow> int \<Rightarrow> 'q \<Rightarrow> 'b RpcRequestTransaction" where
  "Doit_send ser channel_num p request =
     (let message = \<lparr>channel = channel_num, peer = p,
                     data_size = PointerFrozenSize ser request,
                     data = PointerFreeze ser request\<rparr>
      in \<lparr>t_channel = channel_num,
          trace = [Transaction_Init channel_num,
                   CreateMessage p (PointerFrozenSize ser request), Freeze, Send message],
          response = None\<rparr>)"

text \<open>
  The loop \<open>while (response == NULL) cond.Wait(&mutex)\<close>. Each element of the list is what
  the dispatch context hands to \<open>HandleMessage\<close> during one \<open>Wait\<close> (nothing, for a wake-up
  without cause). When the list is used up and no response is recorded, the caller stays
  blocked.
\<close>

fun Doit_wait :: "'b RpcRequestTransaction \<Rightarrow> 'b Message list list \<Rightarrow>
    ('b Message \<times> 'b RpcRequestTransaction, 'b RpcRequestTransaction) outcome" where
  "Doit_wait t [] =
     (case response t of
        None \<Rightarrow> Blocks (emit [Wait] t)
      | Some r \<Rightarrow> Returns (r, emit [Unlock] t))"
| "Doit_wait t (b # bs) =
     (case response t of
        None \<Rightarrow> Doit_wait (foldl RpcRequestTransaction_HandleMessage (emit [Wait] t) b) bs
      | Some r \<Rightarrow> Returns (r, emit [Unlock] t))"

text \<open>\<open>early\<close> is what is handed to \<open>HandleMessage\<close> between \<open>Send\<close> and \<open>mutex.Lock()\<close>.\<close>

definition RpcRequestTransaction_Doit :: "('q, 'b) ot \<Rightarrow> int \<Rightarrow> int \<Rightarrow> 'q \<Rightarrow>
    'b Message list \<Rightarrow> 'b Message list list \<Rightarrow>
    ('b Message \<times> 'b RpcRequestTransaction, 'b RpcRequestTransaction) outcome" where
  "RpcRequestTransaction_Doit ser channel_num p request early waits =
     Doit_wait
       (emit [Lock] (foldl RpcRequestTransaction_HandleMessage
                       (Doit_send ser channel_num p request) early))
       waits"

definition Rpc_Request :: "('q, 'b) ot \<Rightarrow> ('r, 'b) ot \<Rightarrow> int \<Rightarrow> int \<Rightarrow> 'q \<Rightarrow>
    'b Message list \<Rightarrow> 'b Message list list \<Rightarrow> ('r, 'b RpcRequestTransaction) outcome" where
  "Rpc_Request ser_q ser_r channel_num p request early waits =
     (case RpcRequestTransaction_Doit ser_q channel_num p request early waits of
        Returns (response_m, t) \<Rightarrow> Returns (PointerThaw ser_r (data response_m))
      | Blocks t \<Rightarrow> Blocks t
      | Aborts e t \<Rightarrow> Aborts e t)"

section \<open>The service dispatcher\<close>

text \<open>
  \<open>HandleRequest(request, &response)\<close> takes the request and the default-constructed
  response and gives the response it has filled in, unless it aborts.
\<close>

type_synonym ('q, 'r) handler = "'q \<Rightarrow> 'r \<Rightarrow> error + 'r"

definition HandleRequest_default :: "('q, 'r) handler" where
  "HandleRequest_default request response_p = Inl FATAL_virtuality_sucks"

definition RemoteObjectBackend_GetTransaction :: "'b Message \<Rightarrow> 'b Transaction" where
  "RemoteObjectBackend_GetTransaction message =
     \<lparr>t_channel = channel message, trace = [Transaction_Init (channel message)]\<rparr>"

definition RemoteObjectTransaction_HandleMessage :: "('q, 'b) ot \<Rightarrow> ('r, 'b) ot \<Rightarrow> 'r \<Rightarrow>
    ('q, 'r) handler \<Rightarrow> 'b Transaction \<Rightarrow> 'b Message \<Rightarrow>
    (error \<times> 'b Transaction) + 'b Transaction" where
  "RemoteObjectTransaction_HandleMessage ser_q ser_r default_response HandleRequest t request =
     (let real_request = PointerThaw ser_q (data request) in
      case HandleRequest real_request default_response of
        Inl e \<Rightarrow> Inl (e, emit [Thaw, Construct, HandleRequest_call] t)
      | Inr real_response \<Rightarrow>
          let response_m = \<lparr>channel = t_channel t, peer = peer request,
                            data_size = PointerFrozenSize ser_r real_response,
                            data = PointerFreeze ser_r real_response\<rparr>
          in Inr (emit [Thaw, Construct, HandleRequest_call,
                        CreateMessage (peer request) (PointerFrozenSize ser_r real_response),
                        Delete request, Freeze, Send response_m, Done, Delete_this] t))"

fun trace_of :: "(error \<times> ('b, 'z) Transaction_scheme) + ('b, 'z) Transaction_scheme \<Rightarrow>
    'b action list" where
  "trace_of (Inl (e, t)) = trace t"
| "trace_of (Inr t) = trace t"

text \<open>
  Modelled from the spec: the dispatch path, which is not part of the sources at hand,
  hands an arriving request to the transaction that the channel's \<open>GetTransaction\<close> gives
  for it.
\<close>

definition dispatch :: "('q, 'b) ot \<Rightarrow> ('r, 'b) ot \<Rightarrow> 'r \<Rightarrow> ('q, 'r) handler \<Rightarrow>
    'b Message \<Rightarrow> (error \<times> 'b Transaction) + 'b Transaction" where
  "dispatch ser_q ser_r default_response HandleRequest request =
     RemoteObjectTransaction_HandleMessage ser_q ser_r default_response HandleRequest
       (RemoteObjectBackend_GetTransaction request) request"

text \<open>
  One call from process \<open>me\<close> to the service of process \<open>server\<close>: the request travels to the
  server, the dispatcher answers it, and what the server sent back reaches the caller
  either before it takes its lock (\<open>early\<close>) or after \<open>spurious\<close> wake-ups without cause.
\<close>

definition Rpc_exchange :: "('q, 'b) ot \<Rightarrow> ('r, 'b) ot \<Rightarrow> 'r \<Rightarrow> ('q, 'r) handler \<Rightarrow>
    int \<Rightarrow> int \<Rightarrow> int \<Rightarrow> 'q \<Rightarrow> bool \<Rightarrow> nat \<Rightarrow> ('r, 'b RpcRequestTransaction) outcome" where
  "Rpc_exchange ser_q ser_r default_response HandleRequest channel_num me server request
       early spurious =
     (let requests = deliveries me server (trace (Doit_send ser_q channel_num server request));
          replies = concat (map (\<lambda>m. deliveries server me
                      (trace_of (dispatch ser_q ser_r default_response HandleRequest m))) requests)
      in if early then Rpc_Request ser_q ser_r channel_num server request replies []
         else Rpc_Request ser_q ser_r channel_num server request []
                (replicate spurious [] @ [replies]))"

text \<open>The action that follows the first occurrence of an action in a trace.\<close>

fun next_after :: "'a \<Rightarrow> 'a list \<Rightarrow> 'a option" where
  "next_after a [] = None"
| "next_after a [x] = None"
| "next_after a (x # y # xs) = (if x = a then Some y else next_after a (y # xs))"

section \<open>Invariants of the reduction transaction\<close>

text \<open>The message that the finalisation sends to the parent, if there is a parent.\<close>

definition upward :: "Topology \<Rightarrow> ('d, 'b) ot \<Rightarrow> int \<Rightarrow> 'd \<Rightarrow> 'b Message list" where
  "upward T ser channel_num d =
     (if is_root T then []
      else [\<lparr>channel = channel_num, peer = parent T,
             data_size = PointerFrozenSize ser d, data = PointerFreeze ser d\<rparr>])"

definition slot_filled :: "'b Message option \<Rightarrow> bool" where
  "slot_filled s = (s \<noteq> None)"

definition n_filled :: "('d, 'b) ReduceTransaction \<Rightarrow> nat" where
  "n_filled t = length (filter slot_filled (received t))"

definition all_filled :: "('d, 'b) ReduceTransaction \<Rightarrow> bool" where
  "all_filled t = list_all slot_filled (received t)"

definition slot_from_child :: "Topology \<Rightarrow> ('d, 'b) ReduceTransaction \<Rightarrow> nat \<Rightarrow> bool" where
  "slot_from_child T t i =
     (case received t ! i of None \<Rightarrow> True | Some m \<Rightarrow> peer m = child T i)"

definition slots_invariant :: "Topology \<Rightarrow> ('d, 'b) ReduceTransaction \<Rightarrow> bool" where
  "slots_invariant T t =
     (length (received t) = length (children T) \<and>
      n_received t = int (n_filled t) \<and>
      list_all (slot_from_child T t) [0 ..< length (received t)])"

text \<open>
  What holds between two calls of the transaction's methods: the finalisation has run
  (its last action is the signal \<open>cond_.Done()\<close>) once if every slot is filled and not at all
  otherwise, and with it the unregistration and the message to the parent.
\<close>

definition finalize_invariant :: "Topology \<Rightarrow> ('d, 'b) ot \<Rightarrow> int \<Rightarrow>
    ('d, 'b) ReduceTransaction \<Rightarrow> bool" where
  "finalize_invariant T ser channel_num t =
     (length (received t) = length (children T) \<and>
      n_received t = int (n_filled t) \<and>
      t_channel t = channel_num \<and>
      cond t = all_filled t \<and>
      count_list (trace t) Cond_Done = (if all_filled t then 1 else 0) \<and>
      count_list (trace t) (Unregister channel_num) = (if all_filled t then 1 else 0) \<and>
      sent (trace t) = (if all_filled t then upward T ser channel_num (t_data t) else []))"

text \<open>
  The slots when the children with ids in \<open>P\<close> have reported, and the state after the
  finalisation when all of them have; \<open>ordered\<close> holds the children's messages in
  child-index order.
\<close>

definition filled :: "'b Message list \<Rightarrow> int set \<Rightarrow> 'b Message option list" where
  "filled ordered P = map (\<lambda>m. if peer m \<in> P then Some m else None) ordered"

definition finalized :: "Topology \<Rightarrow> 'd reductor \<Rightarrow> ('d, 'b) ot \<Rightarrow> 'b Message list \<Rightarrow>
    ('d, 'b) ReduceTransaction \<Rightarrow> ('d, 'b) ReduceTransaction" where
  "finalized T Reduce ser ordered t =
     (let d = foldl (\<lambda>acc m. Reduce (PointerThaw ser (data m)) acc) (t_data t) ordered in
      emit (concat (map (\<lambda>m. [Thaw, Reduce_call, Delete m]) ordered) @
            (if is_root T then []
             else [CreateMessage (parent T) (PointerFrozenSize ser d), Freeze,
                   Send \<lparr>channel = t_channel t, peer = parent T,
                         data_size = PointerFrozenSize ser d, data = PointerFreeze ser d\<rparr>]) @
            [Unregister (t_channel t), Done, Cond_Done])
        (t\<lparr>received := map Some ordered, t_data := d, cond := True\<rparr>))"

section \<open>Concrete reductions and services\<close>

definition subtract_reductor :: "int reductor" where
  "subtract_reductor incoming acc = incoming - acc"

definition append_reductor :: "string reductor" where
  "append_reductor incoming acc = acc @ incoming"

definition int_ser :: "(int, int) ot" where
  "int_ser = \<lparr>PointerFrozenSize = (\<lambda>x. 4), PointerFreeze = (\<lambda>x. x), PointerThaw = (\<lambda>b. b)\<rparr>"

definition string_ser :: "(string, string) ot" where
  "string_ser = \<lparr>PointerFrozenSize = length, PointerFreeze = (\<lambda>x. x), PointerThaw = (\<lambda>b. b)\<rparr>"

definition in_index_order :: "int \<Rightarrow> 'b Message list \<Rightarrow> 'b Message list" where
  "in_index_order p ms = ms"

definition in_reverse_order :: "int \<Rightarrow> 'b Message list \<Rightarrow> 'b Message list" where
  "in_reverse_order p ms = rev ms"

definition tree_R_A_B :: "int ptree" where
  "tree_R_A_B = PNode 0 10 [PNode 1 3 [], PNode 2 4 []]"

definition tree_of_strings :: "string ptree" where
  "tree_of_strings = PNode 0 ''R'' [PNode 1 ''A'' [], PNode 2 ''B'' []]"

definition deep_tree_of_strings :: "string ptree" where
  "deep_tree_of_strings =
     PNode 0 ''R'' [PNode 1 ''A'' [PNode 3 ''C'' [], PNode 4 ''D'' []], PNode 2 ''B'' []]"

definition doubling_handler :: "(int, int) handler" where
  "doubling_handler request response_p = Inr (2 * request)"

definition topology_R :: Topology where
  "topology_R = \<lparr>parent = 0, is_root = True, children = [1, 2]\<rparr>"


definition message_from :: "int \<Rightarrow> int \<Rightarrow> int Message" where
  "message_from p d = \<lparr>channel = 7, peer = p, data_size = 4, data = d\<rparr>"

definition waiting_R :: "(int, int) ReduceTransaction" where
  "waiting_R = \<lparr>t_channel = 7, trace = [Transaction_Init 7], received = [None, None],
                n_received = 0, t_data = 10, cond = False\<rparr>"

definition waiting_R_after_A :: "(int, int) ReduceTransaction" where
  "waiting_R_after_A =
     \<lparr>t_channel = 7, trace = [Transaction_Init 7, Done_peer 1],
      received = [Some (message_from 1 3), None], n_received = 1, t_data = 10, cond = False\<rparr>"


section \<open>One process: any arrival order gives the fold in child-index order\<close>

lemma find_child_index:
  "distinct (children T) \<Longrightarrow> i < k \<Longrightarrow> k \<le> length (children T) \<Longrightarrow>
   find_child T k (children T ! i) = int i"
proof (induction k)
  case 0
  then show ?case by simp
next
  case (Suc k)
  show ?case
  proof (cases "i = k")
    case True
    then show ?thesis by (simp add: child_def)
  next
    case False
    with Suc.prems have "children T ! i \<noteq> children T ! k"
      by (simp add: nth_eq_iff_index_eq)
    with False Suc show ?thesis by (simp add: child_def)
  qed
qed


lemma find_child_found:
  "find_child T k p \<noteq> - 1 \<Longrightarrow>
   0 \<le> find_child T k p \<and> nat (find_child T k p) < k \<and> child T (nat (find_child T k p)) = p"
  by (induction k) (auto split: if_splits)

lemma sent_append: "sent (xs @ ys) = sent xs @ sent ys"
  by (induction xs rule: sent.induct) auto

lemma reduce_received_filled:
  "\<forall>i \<in> set is. i < length (received t) \<and> received t ! i \<noteq> None \<Longrightarrow>
   reduce_received Reduce ser is t =
     Inr (t\<lparr>trace := trace t @ concat (map (\<lambda>i. [Thaw, Reduce_call, Delete (the (received t ! i))]) is),
            t_data := foldl (\<lambda>acc i. Reduce (PointerThaw ser (data (the (received t ! i)))) acc) (t_data t) is\<rparr>)"
proof (induction "is" arbitrary: t)
  case Nil
  then show ?case by simp
next
  case (Cons i "is")
  then show ?case by (auto simp: emit_def)
qed

lemma foldl_upt_nth:
  "foldl (\<lambda>acc i. f (xs ! i) acc) a [0 ..< length xs] = foldl (\<lambda>acc x. f x acc) a xs"
proof -
  have "foldl (\<lambda>acc x. f x acc) a (map ((!) xs) [0 ..< length xs]) =
        foldl (\<lambda>acc i. f (xs ! i) acc) a [0 ..< length xs]"
    by (simp only: foldl_map)
  then show ?thesis by (simp only: map_nth)
qed

lemma concat_map_upt_nth:
  "concat (map (\<lambda>i. g (xs ! i)) [0 ..< length xs]) = concat (map g xs)"
proof -
  have "map (\<lambda>i. g (xs ! i)) [0 ..< length xs] = map g (map ((!) xs) [0 ..< length xs])"
    by simp
  then show ?thesis by (simp only: map_nth)
qed

lemma reduce_received_all:
  assumes "received t = map Some ordered"
  shows "reduce_received Reduce ser [0 ..< length ordered] t =
     Inr (t\<lparr>trace := trace t @ concat (map (\<lambda>m. [Thaw, Reduce_call, Delete m]) ordered),
            t_data := foldl (\<lambda>acc m. Reduce (PointerThaw ser (data m)) acc) (t_data t) ordered\<rparr>)"
proof -
  have a: "\<forall>i \<in> set [0 ..< length ordered]. i < length (received t) \<and> received t ! i \<noteq> None"
    using assms by simp
  have b: "foldl (\<lambda>acc i. Reduce (PointerThaw ser (data (the (received t ! i)))) acc) (t_data t) [0 ..< length ordered]
        = foldl (\<lambda>acc i. Reduce (PointerThaw ser (data (ordered ! i))) acc) (t_data t) [0 ..< length ordered]"
    by (rule foldl_cong) (simp_all add: assms)
  have c: "concat (map (\<lambda>i. [Thaw, Reduce_call, Delete (the (received t ! i))]) [0 ..< length ordered])
        = concat (map (\<lambda>i. [Thaw, Reduce_call, Delete (ordered ! i)]) [0 ..< length ordered])"
    by (rule arg_cong[where f = concat]) (simp add: assms)
  show ?thesis
    unfolding reduce_received_filled[OF a] b c
    using foldl_upt_nth[where f = "\<lambda>m acc. Reduce (PointerThaw ser (data m)) acc" and xs = ordered]
      concat_map_upt_nth[where g = "\<lambda>m. [Thaw, Reduce_call, Delete m]" and xs = ordered]
    by simp
qed

lemma CheckStatus_full:
  assumes "received t = map Some ordered" "n_received t = int (length ordered)"
    "length ordered = length (children T)"
  shows "CheckStatus T Reduce ser t = Inr (finalized T Reduce ser ordered t)"
  using assms reduce_received_all[OF assms(1), of Reduce ser]
  by (simp add: CheckStatus_def n_children_def finalized_def emit_def Let_def)

lemma CheckStatus_waiting:
  "n_received t \<noteq> int (length (children T)) \<Longrightarrow> CheckStatus T Reduce ser t = Inr t"
  by (simp add: CheckStatus_def n_children_def)


lemma filled_all:
  "set (map peer ordered) \<subseteq> P \<Longrightarrow> filled ordered P = map Some ordered"
  by (auto simp: filled_def)

lemma filled_insert:
  assumes "distinct (map peer ordered)" "j < length ordered"
  shows "(filled ordered P)[j := Some (ordered ! j)] = filled ordered (insert (peer (ordered ! j)) P)"
proof (rule nth_equalityI)
  show "length ((filled ordered P)[j := Some (ordered ! j)]) =
        length (filled ordered (insert (peer (ordered ! j)) P))"
    by (simp add: filled_def)
next
  fix k assume "k < length ((filled ordered P)[j := Some (ordered ! j)])"
  then have k: "k < length ordered" by (simp add: filled_def)
  show "(filled ordered P)[j := Some (ordered ! j)] ! k =
        filled ordered (insert (peer (ordered ! j)) P) ! k"
  proof (cases "k = j")
    case True
    with k show ?thesis by (simp add: filled_def)
  next
    case False
    with assms k have "map peer ordered ! k \<noteq> map peer ordered ! j"
      by (simp add: nth_eq_iff_index_eq del: nth_map)
    with k assms(2) have "peer (ordered ! k) \<noteq> peer (ordered ! j)" by simp
    with False k show ?thesis by (simp add: filled_def)
  qed
qed

lemma HandleMessage_fresh:
  assumes d: "distinct (children T)" and o: "map peer ordered = children T"
    and r: "received t = filled ordered P" and m: "m \<in> set ordered" and f: "peer m \<notin> P"
  shows "ReduceTransaction_HandleMessage T Reduce ser t m =
     CheckStatus T Reduce ser
       (emit [Done_peer (peer m)] (t\<lparr>received := filled ordered (insert (peer m) P)\<rparr>)
        \<lparr>n_received := n_received t + 1\<rparr>)"
proof -
  from m obtain j where j: "j < length ordered" "ordered ! j = m"
    by (auto simp: in_set_conv_nth)
  have len: "length (children T) = length ordered" using o by (metis length_map)
  have pj: "children T ! j = peer m" using o j by (metis nth_map)
  have fc: "find_child T (nat (n_children T)) (peer m) = int j"
    using find_child_index[OF d, of j "length (children T)"] j len pj
    by (simp add: n_children_def)
  have slot: "received t ! j = None" using r j f by (simp add: filled_def)
  have upd: "(received t)[j := Some m] = filled ordered (insert (peer m) P)"
    using filled_insert[of ordered j P] d o j r by simp
  show ?thesis
    using fc slot upd j r
    by (simp add: ReduceTransaction_HandleMessage_def Let_def filled_def)
qed

lemma Wait_permutation:
  assumes d: "distinct (children T)" and o: "map peer ordered = children T"
  shows "received t = filled ordered P \<Longrightarrow> n_received t = int (card P) \<Longrightarrow>
    P \<subseteq> set (children T) \<Longrightarrow> \<not> cond t \<Longrightarrow> distinct (map peer ms) \<Longrightarrow>
    set (map peer ms) \<inter> P = {} \<Longrightarrow> set (map peer ms) \<union> P = set (children T) \<Longrightarrow>
    set ms \<subseteq> set ordered \<Longrightarrow> ms \<noteq> [] \<Longrightarrow>
    ReduceChannel_Wait T Reduce ser t ms =
      Returns (finalized T Reduce ser ordered
        (emit (map (\<lambda>m. Done_peer (peer m)) ms) t\<lparr>n_received := int (length ordered)\<rparr>))"
proof (induction ms arbitrary: t P)
  case Nil
  then show ?case by simp
next
  case (Cons m ms)
  have finP: "finite P" using Cons.prems(3) by (rule finite_subset) simp
  have mo: "m \<in> set ordered" using Cons.prems(8) by simp
  have mP: "peer m \<notin> P" using Cons.prems(6) by auto
  let ?P = "insert (peer m) P"
  let ?t = "emit [Done_peer (peer m)] (t\<lparr>received := filled ordered ?P\<rparr>)
        \<lparr>n_received := n_received t + 1\<rparr>"
  have step: "ReduceTransaction_HandleMessage T Reduce ser t m = CheckStatus T Reduce ser ?t"
    by (rule HandleMessage_fresh[OF d o Cons.prems(1) mo mP])
  have nr: "n_received ?t = int (card ?P)"
    using Cons.prems(2) finP mP by (simp add: emit_def)
  have len: "length (children T) = length ordered" using o by (metis length_map)
  show ?case
  proof (cases "ms = []")
    case True
    with Cons.prems(7) have all: "?P = set (children T)" by auto
    then have cardP: "card ?P = length ordered" using d len by (simp add: distinct_card)
    have rec: "received ?t = map Some ordered"
      using all o by (simp add: emit_def filled_all)
    have "CheckStatus T Reduce ser ?t = Inr (finalized T Reduce ser ordered ?t)"
      using rec nr cardP len by (intro CheckStatus_full) simp_all
    with step True Cons.prems(4) cardP nr show ?thesis
      by (simp add: finalized_def emit_def Let_def)
  next
    case False
    then obtain x where "x \<in> set ms" by (cases ms) auto
    then have px: "peer x \<in> peer ` set ms" by (rule imageI)
    with Cons.prems(5,6,7) have "peer x \<in> set (children T)" "peer x \<notin> ?P" by auto
    then have "?P \<subset> set (children T)" using Cons.prems(3,7) by auto
    then have "card ?P < card (set (children T))" by (intro psubset_card_mono) simp_all
    then have "card ?P \<noteq> length (children T)" using d by (simp add: distinct_card)
    with nr have "CheckStatus T Reduce ser ?t = Inr ?t"
      by (intro CheckStatus_waiting) simp
    with step have hm: "ReduceTransaction_HandleMessage T Reduce ser t m = Inr ?t" by simp
    have "ReduceChannel_Wait T Reduce ser ?t ms =
      Returns (finalized T Reduce ser ordered
        (emit (map (\<lambda>m. Done_peer (peer m)) ms) ?t\<lparr>n_received := int (length ordered)\<rparr>))"
    proof (rule Cons.IH[of ?t ?P])
      show "received ?t = filled ordered ?P" by (simp add: emit_def)
      show "n_received ?t = int (card ?P)" by (rule nr)
      show "?P \<subseteq> set (children T)" using Cons.prems(3,7) by auto
      show "\<not> cond ?t" using Cons.prems(4) by (simp add: emit_def)
      show "distinct (map peer ms)" using Cons.prems(5) by simp
      show "set (map peer ms) \<inter> ?P = {}" using Cons.prems(5,6) by auto
      show "set (map peer ms) \<union> ?P = set (children T)" using Cons.prems(7) by auto
      show "set ms \<subseteq> set ordered" using Cons.prems(8) by simp
      show "ms \<noteq> []" by (rule False)
    qed
    with hm Cons.prems(4) show ?thesis
      by (simp add: finalized_def emit_def Let_def)
  qed
qed


lemma sent_Done_peer: "sent (map (\<lambda>m. Done_peer (peer m)) ms) = []"
  by (induction ms) auto

lemma sent_reduce_steps: "sent (concat (map (\<lambda>m. [Thaw, Reduce_call, Delete m]) ms)) = []"
  by (induction ms) auto

lemma finalized_props:
  "t_data (finalized T Reduce ser ordered t) =
     foldl (\<lambda>acc m. Reduce (PointerThaw ser (data m)) acc) (t_data t) ordered"
  "sent (trace (finalized T Reduce ser ordered t)) =
     sent (trace t) @ upward T ser (t_channel t) (t_data (finalized T Reduce ser ordered t))"
  "cond (finalized T Reduce ser ordered t)"
  "t_channel (finalized T Reduce ser ordered t) = t_channel t"
  by (simp_all add: finalized_def emit_def Let_def sent_append sent_reduce_steps upward_def)

lemma Doit_permutation:
  fixes ser :: "('d, 'b) ot"
  assumes d: "distinct (children T)" and o: "map peer ordered = children T"
    and p: "mset arrivals = mset ordered"
  shows "\<exists>t. ReduceChannel_Doit T Reduce ser channel_num v arrivals = Returns t \<and>
     t_data t = foldl (\<lambda>acc m. Reduce (PointerThaw ser (data m)) acc) v ordered \<and>
     sent (trace t) = upward T ser channel_num (t_data t) \<and> cond t \<and> t_channel t = channel_num"
proof (cases "ordered = []")
  case True
  then have "children T = []" "arrivals = []" using o p by auto
  then show ?thesis using True
    by (simp add: ReduceChannel_Doit_def ReduceChannel_Init_def ReduceTransaction_Init_def
        CheckStatus_def n_children_def emit_def upward_def)
next
  case False
  let ?t0 = "\<lparr>t_channel = channel_num, trace = [Transaction_Init channel_num],
        received = replicate (nat (n_children T)) None,
        n_received = 0, t_data = v, cond = False\<rparr> :: ('d, 'b) ReduceTransaction"
  let ?t1 = "emit [Register channel_num] ?t0"
  have len: "length (children T) = length ordered" using o by (metis length_map)
  with False have "n_received ?t0 \<noteq> int (length (children T))" by simp
  then have "CheckStatus T Reduce ser ?t0 = Inr ?t0" by (rule CheckStatus_waiting)
  then have init: "ReduceChannel_Init T Reduce ser channel_num v = Inr ?t1"
    by (simp add: ReduceChannel_Init_def ReduceTransaction_Init_def)
  have seteq: "set arrivals = set ordered" using p by (rule mset_eq_setD)
  have "mset (map peer arrivals) = mset (map peer ordered)" using p by (metis mset_map)
  then have dist: "distinct (map peer arrivals)" and peers: "set (map peer arrivals) = set (children T)"
    using d o by (metis mset_eq_imp_distinct_iff, metis mset_eq_setD)
  have ne: "arrivals \<noteq> []" using False p by auto
  have "ReduceChannel_Wait T Reduce ser ?t1 arrivals =
      Returns (finalized T Reduce ser ordered
        (emit (map (\<lambda>m. Done_peer (peer m)) arrivals) ?t1\<lparr>n_received := int (length ordered)\<rparr>))"
  proof (rule Wait_permutation[OF d o, of ?t1 "{}"])
    show "received ?t1 = filled ordered {}"
      using len by (simp add: emit_def filled_def n_children_def map_replicate_const)
    show "set (map peer arrivals) \<union> {} = set (children T)" using peers by simp
    show "set arrivals \<subseteq> set ordered" using seteq by simp
  qed (simp_all add: emit_def dist ne)
  then show ?thesis using init
    by (simp add: ReduceChannel_Doit_def finalized_props emit_def sent_append sent_Done_peer)
qed


lemma concat_map_singleton:
  "(\<And>x. x \<in> set xs \<Longrightarrow> g x = [f x]) \<Longrightarrow> concat (map g xs) = map f xs"
  by (induction xs) auto

lemma Reduce_tree_subtree_value:
  fixes ser :: "('d, 'b) ot"
  assumes rt: "roundtrip ser" and perm: "\<forall>p ms. mset (arrival p ms) = mset ms"
  shows "distinct_children T \<Longrightarrow>
    \<exists>t. Reduce_tree Reduce ser channel_num arrival par root T = Returns t \<and>
      t_data t = subtree_value Reduce T \<and>
      sent (trace t) = upward \<lparr>parent = par, is_root = root, children = []\<rparr> ser channel_num (t_data t)"
proof (induction T arbitrary: par root)
  case (PNode p v cs)
  let ?f = "\<lambda>c. \<lparr>channel = channel_num, peer = pid c,
        data_size = PointerFrozenSize ser (subtree_value Reduce c),
        data = PointerFreeze ser (subtree_value Reduce c)\<rparr>"
  let ?T = "\<lparr>parent = par, is_root = root, children = map pid cs\<rparr>"
  have inbox: "concat (map (\<lambda>c. deliveries (pid c) p
          (trace (state_of (Reduce_tree Reduce ser channel_num arrival p False c)))) cs) = map ?f cs"
  proof (rule concat_map_singleton)
    fix c assume c: "c \<in> set cs"
    with PNode.prems have "distinct_children c" by (simp add: list_all_iff)
    from PNode.IH[OF c this, of p False] obtain t where
      t: "Reduce_tree Reduce ser channel_num arrival p False c = Returns t"
        "t_data t = subtree_value Reduce c"
        "sent (trace t) = upward \<lparr>parent = p, is_root = False, children = []\<rparr> ser channel_num (t_data t)"
      by blast
    then show "deliveries (pid c) p
          (trace (state_of (Reduce_tree Reduce ser channel_num arrival p False c))) = [?f c]"
      by (simp add: deliveries_def upward_def)
  qed
  have d: "distinct (children ?T)" using PNode.prems by simp
  have o: "map peer (map ?f cs) = children ?T" by simp
  have m: "mset (arrival p (map ?f cs)) = mset (map ?f cs)" using perm by blast
  from Doit_permutation[OF d o m, of Reduce ser channel_num v] obtain t where
    t: "ReduceChannel_Doit ?T Reduce ser channel_num v (arrival p (map ?f cs)) = Returns t"
      "t_data t = foldl (\<lambda>acc m. Reduce (PointerThaw ser (data m)) acc) v (map ?f cs)"
      "sent (trace t) = upward ?T ser channel_num (t_data t)"
    by blast
  have "t_data t = subtree_value Reduce (PNode p v cs)"
    using t(2) rt by (simp add: foldl_map roundtrip_def)
  with t(1,3) inbox show ?case by (simp add: upward_def)
qed

lemma oplus_foldl:
  assumes "associative f"
  shows "f a (foldl (\<lambda>acc c. f acc (h c)) v cs) = foldl (\<lambda>acc c. f acc (h c)) (f a v) cs"
proof (induction cs arbitrary: v)
  case Nil
  then show ?case by simp
next
  case (Cons c cs)
  have "f a (f v (h c)) = f (f a v) (h c)" using assms by (simp add: associative_def)
  with Cons show ?case by simp
qed

lemma foldl_preorder:
  assumes "associative (oplus Reduce)"
  shows "foldl (oplus Reduce) a (preorder T) = oplus Reduce a (subtree_value Reduce T)"
proof (induction T arbitrary: a)
  case (PNode p v cs)
  have inner: "\<And>b. foldl (oplus Reduce) b (concat (map preorder cs)) =
        foldl (\<lambda>acc c. oplus Reduce acc (subtree_value Reduce c)) b cs"
    using PNode.IH
  proof (induction cs)
    case Nil
    then show ?case by simp
  next
    case (Cons c cs)
    then show ?case by simp
  qed
  have sv: "subtree_value Reduce (PNode p v cs) =
      foldl (\<lambda>acc c. oplus Reduce acc (subtree_value Reduce c)) v cs"
    by (simp add: oplus_def)
  show ?case
    unfolding sv oplus_foldl[OF assms] using inner by simp
qed

lemma product_preorder:
  assumes "associative (oplus Reduce)"
  shows "product (oplus Reduce) (preorder T) = Some (subtree_value Reduce T)"
proof (cases T)
  case (PNode p v cs)
  have "\<And>b. foldl (oplus Reduce) b (concat (map preorder cs)) =
        foldl (\<lambda>acc c. oplus Reduce acc (subtree_value Reduce c)) b cs"
  proof (induction cs)
    case Nil
    then show ?case by simp
  next
    case (Cons c cs)
    then show ?case by (simp add: foldl_preorder[OF assms])
  qed
  then show ?thesis using PNode by (simp add: oplus_def)
qed

lemma descendants_distinct_children:
  "(q, S) \<in> set (descendants T) \<Longrightarrow> distinct_children T \<Longrightarrow> distinct_children S"
proof (induction T)
  case (PNode p v cs)
  then show ?case by (auto simp: list_all_iff)
qed

section \<open>What a call of the transaction changes\<close>

lemma reduce_received_frame:
  "reduce_received Reduce ser is t = Inr t' \<Longrightarrow>
   received t' = received t \<and> t_channel t' = t_channel t \<and> cond t' = cond t \<and>
   n_received t' = n_received t"
proof (induction "is" arbitrary: t)
  case Nil
  then show ?case by simp
next
  case (Cons i "is")
  then show ?case
    by (fastforce simp: emit_def split: if_splits option.splits)
qed

lemma CheckStatus_frame:
  "CheckStatus T Reduce ser t = Inr t' \<Longrightarrow>
   received t' = received t \<and> t_channel t' = t_channel t \<and> n_received t' = n_received t"
  by (auto simp: CheckStatus_def emit_def Let_def split: if_splits sum.splits
      dest!: reduce_received_frame)

lemma HandleMessage_success:
  assumes "ReduceTransaction_HandleMessage T Reduce ser t m = Inr t'"
  shows "\<exists>i. find_child T (nat (n_children T)) (peer m) = int i \<and>
      i < length (children T) \<and> i < length (received t) \<and> child T i = peer m \<and>
      received t ! i = None \<and>
      CheckStatus T Reduce ser
        (emit [Done_peer (peer m)] (t\<lparr>received := (received t)[i := Some m]\<rparr>)
         \<lparr>n_received := n_received t + 1\<rparr>) = Inr t'"
proof -
  let ?r = "find_child T (nat (n_children T)) (peer m)"
  from assms have nn: "\<not> ?r < 0"
    by (auto simp: ReduceTransaction_HandleMessage_def Let_def split: if_splits)
  then have "?r \<noteq> - 1" by simp
  from find_child_found[OF this] have f: "nat ?r < nat (n_children T)" "child T (nat ?r) = peer m"
    by simp_all
  from assms nn have "nat ?r < length (received t)" "received t ! nat ?r = None"
    "CheckStatus T Reduce ser
        (emit [Done_peer (peer m)] (t\<lparr>received := (received t)[nat ?r := Some m]\<rparr>)
         \<lparr>n_received := n_received t + 1\<rparr>) = Inr t'"
    by (auto simp: ReduceTransaction_HandleMessage_def Let_def split: if_splits)
  with f nn show ?thesis
    by (intro exI[of _ "nat ?r"]) (simp add: n_children_def)
qed

section \<open>The invariants are kept\<close>

lemma slots_invariant_iff:
  "slots_invariant T t \<longleftrightarrow>
     length (received t) = length (children T) \<and> n_received t = int (n_filled t) \<and>
     (\<forall>i < length (received t). \<forall>m. received t ! i = Some m \<longrightarrow> peer m = child T i)"
  by (auto simp: slots_invariant_def slot_from_child_def list_all_iff split: option.splits)

lemma filter_slot_filled_update:
  "i < length xs \<Longrightarrow> xs ! i = None \<Longrightarrow>
   length (filter slot_filled (xs[i := Some m])) = Suc (length (filter slot_filled xs))"
proof (induction xs arbitrary: i)
  case Nil
  then show ?case by simp
next
  case (Cons x xs)
  then show ?case by (cases i) (auto simp: slot_filled_def)
qed

lemma filter_slot_filled_all:
  "length (filter slot_filled xs) = length xs \<longleftrightarrow> list_all slot_filled xs"
proof
  assume "length (filter slot_filled xs) = length xs"
  then show "list_all slot_filled xs"
    using length_filter_less[of _ xs slot_filled] by (fastforce simp: list_all_iff)
next
  assume "list_all slot_filled xs"
  then have "filter slot_filled xs = xs" by (simp add: list_all_iff)
  then show "length (filter slot_filled xs) = length xs" by simp
qed

lemma all_filled_map_the:
  "list_all slot_filled xs \<Longrightarrow> xs = map Some (map the xs)"
  by (induction xs) (auto simp: slot_filled_def)

lemma CheckStatus_cases:
  assumes "length (received t) = length (children T)" "n_received t = int (n_filled t)"
  shows "CheckStatus T Reduce ser t =
     (if all_filled t then Inr (finalized T Reduce ser (map the (received t)) t) else Inr t)"
proof (cases "all_filled t")
  case True
  then have r: "received t = map Some (map the (received t))"
    unfolding all_filled_def by (rule all_filled_map_the)
  from True have "n_filled t = length (received t)"
    by (simp add: n_filled_def all_filled_def filter_slot_filled_all)
  with assms have "n_received t = int (length (map the (received t)))"
    "length (map the (received t)) = length (children T)" by simp_all
  from CheckStatus_full[OF r this] True show ?thesis by simp
next
  case False
  then have "n_filled t \<noteq> length (received t)"
    by (simp add: n_filled_def all_filled_def filter_slot_filled_all)
  with assms have "n_received t \<noteq> int (length (children T))" by simp
  from CheckStatus_waiting[OF this] False show ?thesis by simp
qed

lemma count_reduce_steps:
  "a \<noteq> Thaw \<Longrightarrow> a \<noteq> Reduce_call \<Longrightarrow> (\<And>m. a \<noteq> Delete m) \<Longrightarrow>
   count_list (concat (map (\<lambda>m. [Thaw, Reduce_call, Delete m]) ms)) a = 0"
  by (induction ms) auto


lemma count_Done_peer:
  "(\<And>p. a \<noteq> Done_peer p) \<Longrightarrow> count_list (map (\<lambda>m. Done_peer (peer m)) ms) a = 0"
  by (induction ms) auto


lemma count_finalized:
  "count_list (trace (finalized T Reduce ser ordered t)) Cond_Done =
     Suc (count_list (trace t) Cond_Done)"
  "count_list (trace (finalized T Reduce ser ordered t)) (Unregister (t_channel t)) =
     Suc (count_list (trace t) (Unregister (t_channel t)))"
  "n_received (finalized T Reduce ser ordered t) = n_received t"
  by (simp_all add: finalized_def emit_def Let_def count_reduce_steps)

lemma nat_n_children: "nat (n_children T) = length (children T)"
  by (simp add: n_children_def)

lemma Init_finalize_invariant:
  fixes ser :: "('d, 'b) ot"
  shows "\<exists>t. ReduceTransaction_Init T Reduce ser channel_num v = Inr t \<and>
     finalize_invariant T ser channel_num t \<and> slots_invariant T t"
proof -
  let ?t0 = "\<lparr>t_channel = channel_num, trace = [Transaction_Init channel_num],
        received = replicate (nat (n_children T)) None,
        n_received = 0, t_data = v, cond = False\<rparr> :: ('d, 'b) ReduceTransaction"
  have nf: "n_filled ?t0 = 0" by (simp add: n_filled_def slot_filled_def)
  have c: "CheckStatus T Reduce ser ?t0 =
     (if all_filled ?t0 then Inr (finalized T Reduce ser (map the (received ?t0)) ?t0) else Inr ?t0)"
    by (rule CheckStatus_cases) (simp_all add: n_filled_def slot_filled_def n_children_def)
  show ?thesis
  proof (cases "all_filled ?t0")
    case True
    then have e: "children T = []"
      by (auto simp: all_filled_def nat_n_children list_all_iff slot_filled_def
          set_replicate_conv_if split: if_splits)
    with c True show ?thesis
      by (simp add: ReduceTransaction_Init_def finalize_invariant_def slots_invariant_def
          finalized_def emit_def all_filled_def n_filled_def upward_def n_children_def)
  next
    case False
    with c nf show ?thesis
      by (simp add: ReduceTransaction_Init_def finalize_invariant_def slots_invariant_def
          slot_from_child_def list_all_iff n_children_def)
  qed
qed








lemma HandleMessage_slots_invariant:
  assumes inv: "slots_invariant T t"
    and hm: "ReduceTransaction_HandleMessage T Reduce ser t m = Inr t'"
  shows "slots_invariant T t'"
proof -
  from HandleMessage_success[OF hm] obtain i where
    i: "i < length (received t)" "received t ! i = None" "child T i = peer m"
    and cs: "CheckStatus T Reduce ser
        (emit [Done_peer (peer m)] (t\<lparr>received := (received t)[i := Some m]\<rparr>)
         \<lparr>n_received := n_received t + 1\<rparr>) = Inr t'"
    by blast
  from CheckStatus_frame[OF cs] have f: "received t' = (received t)[i := Some m]"
    "n_received t' = n_received t + 1" by (simp_all add: emit_def)
  from inv i f show ?thesis
    unfolding slots_invariant_iff
    by (auto simp: n_filled_def filter_slot_filled_update nth_list_update)
qed

lemma HandleMessages_slots_invariant:
  "slots_invariant T t \<Longrightarrow> HandleMessages T Reduce ser t ms = Inr t' \<Longrightarrow>
   slots_invariant T t'"
proof (induction ms arbitrary: t)
  case Nil
  then show ?case by simp
next
  case (Cons m ms)
  then show ?case
    by (auto split: sum.splits dest: HandleMessage_slots_invariant)
qed

lemma CheckStatus_triggered:
  assumes "slots_invariant T t"
  shows "\<exists>t'. CheckStatus T Reduce ser t = Inr t' \<and>
     count_list (trace t') Cond_Done =
       count_list (trace t) Cond_Done + (if n_received t = n_children T then 1 else 0)"
proof -
  from assms have l: "length (received t) = length (children T)" "n_received t = int (n_filled t)"
    by (simp_all add: slots_invariant_def)
  have "all_filled t \<longleftrightarrow> n_received t = n_children T"
    using l by (simp add: all_filled_def n_filled_def n_children_def filter_slot_filled_all[symmetric])
  with CheckStatus_cases[OF l, of Reduce ser] show ?thesis
    by (simp add: count_finalized)
qed

section \<open>The value of a reduction over the tree\<close>

text \<open>
  Claim C1, as amended. For every spanning tree whose nodes have pairwise distinct child
  ids, every associative reductor (\<open>a \<oplus> x = Reduce(x, a)\<close>, the accumulator on the left),
  every serialisation that thaws what it froze and every order in which the children's
  messages arrive at each process: the call at the root returns with the product of all
  contributions in pre-order (a node's own contribution first, then its children's
  subtrees by increasing child index), and the call at every other node returns with the
  product, in the same order, of the contributions of its own subtree.
\<close>

theorem Reduce_tree_preorder:
  fixes ser :: "('d, 'b) ot"
  assumes "associative (oplus Reduce)" and "roundtrip ser"
    and "\<forall>p ms. mset (arrival p ms) = mset ms" and "distinct_children T"
  shows "value_of (Reduce_tree Reduce ser channel_num arrival par True T) =
           product (oplus Reduce) (preorder T) \<and>
         (\<forall>(q, S) \<in> set (descendants T).
            value_of (Reduce_tree Reduce ser channel_num arrival q False S) =
              product (oplus Reduce) (preorder S))"
proof -
  have "\<And>S q r. distinct_children S \<Longrightarrow>
      value_of (Reduce_tree Reduce ser channel_num arrival q r S) = product (oplus Reduce) (preorder S)"
  proof -
    fix S :: "'d ptree" and q r
    assume "distinct_children S"
    from Reduce_tree_subtree_value[OF assms(2,3) this, of Reduce channel_num q r]
    show "value_of (Reduce_tree Reduce ser channel_num arrival q r S) = product (oplus Reduce) (preorder S)"
      by (auto simp: product_preorder[OF assms(1)])
  qed
  then show ?thesis using assms(4) descendants_distinct_children by blast
qed

theorem Reduce_tree_preorder_witness:
  "associative (oplus append_reductor) \<and> roundtrip string_ser \<and>
   distinct_children deep_tree_of_strings \<and>
   value_of (Reduce_tree append_reductor string_ser 7 in_reverse_order 0 True
     deep_tree_of_strings) = Some ''RACDB'' \<and>
   value_of (Reduce_tree append_reductor string_ser 7 in_reverse_order 0 False
     (PNode 1 ''A'' [PNode 3 ''C'' [], PNode 4 ''D'' []])) = Some ''ACD''"
proof -
  have a: "associative (oplus append_reductor)"
    by (simp add: associative_def oplus_def append_reductor_def)
  have r: "roundtrip string_ser"
    by (simp add: roundtrip_def string_ser_def)
  have p: "\<forall>p ms. mset (in_reverse_order p ms :: string Message list) = mset ms"
    by (simp add: in_reverse_order_def)
  have d: "distinct_children deep_tree_of_strings"
    by (simp add: deep_tree_of_strings_def)
  have m: "(0, PNode 1 ''A'' [PNode 3 ''C'' [], PNode 4 ''D'' []]) \<in>
      set (descendants deep_tree_of_strings)"
    by (simp add: deep_tree_of_strings_def)
  have e1: "product (oplus append_reductor) (preorder deep_tree_of_strings) = Some ''RACDB''"
    by (simp add: deep_tree_of_strings_def oplus_def append_reductor_def)
  have e2: "product (oplus append_reductor)
      (preorder (PNode 1 ''A'' [PNode 3 ''C'' [], PNode 4 ''D'' []])) = Some ''ACD''"
    by (simp add: oplus_def append_reductor_def)
  from Reduce_tree_preorder[OF a r p d, of 7 0] m
  have "value_of (Reduce_tree append_reductor string_ser 7 in_reverse_order 0 True
          deep_tree_of_strings) = product (oplus append_reductor) (preorder deep_tree_of_strings)"
    and "value_of (Reduce_tree append_reductor string_ser 7 in_reverse_order 0 False
          (PNode 1 ''A'' [PNode 3 ''C'' [], PNode 4 ''D'' []])) =
         product (oplus append_reductor)
           (preorder (PNode 1 ''A'' [PNode 3 ''C'' [], PNode 4 ''D'' []]))"
    by blast+
  with a r d e1 e2 show ?thesis by (simp only: simp_thms)
qed

text \<open>
  Claim C1 as stated fails. With the associative reductor that appends the incoming
  string to the accumulator, a root \<open>R\<close> with the leaves \<open>A\<close> and \<open>B\<close> ends with \<open>RAB\<close>. The
  product in the order "children before parent, children by increasing index" is \<open>ABR\<close>
  when the accumulator is the left operand, and \<open>RBA\<close> when the incoming value is.
\<close>

theorem Reduce_tree_postorder_counterexample:
  "value_of (Reduce_tree append_reductor string_ser 7 in_index_order 0 True tree_of_strings)
     = Some ''RAB'' \<and>
   product (oplus append_reductor) (postorder tree_of_strings) = Some ''ABR'' \<and>
   product append_reductor (postorder tree_of_strings) = Some ''RBA'' \<and>
   value_of (Reduce_tree append_reductor string_ser 7 in_index_order 0 True tree_of_strings)
     \<noteq> product (oplus append_reductor) (postorder tree_of_strings) \<and>
   value_of (Reduce_tree append_reductor string_ser 7 in_index_order 0 True tree_of_strings)
     \<noteq> product append_reductor (postorder tree_of_strings)"
proof -
  have v: "value_of (Reduce_tree append_reductor string_ser 7 in_index_order 0 True
      tree_of_strings) = Some ''RAB''"
    by code_simp
  have p1: "product (oplus append_reductor) (postorder tree_of_strings) = Some ''ABR''"
    by (simp add: tree_of_strings_def oplus_def append_reductor_def)
  have p2: "product append_reductor (postorder tree_of_strings) = Some ''RBA''"
    by (simp add: tree_of_strings_def append_reductor_def)
  show ?thesis unfolding v p1 p2 by simp
qed

text \<open>
  Claim C2. Three processes, the root with contribution 10 and the children \<open>A\<close> and \<open>B\<close>
  with 3 and 4, the reductor \<open>combine(incoming, acc) = incoming - acc\<close>: whatever the order
  of arrival, the root's value after the reduction is 11.
\<close>

theorem Reduce_subtraction_scenario:
  fixes ser :: "(int, 'b) ot"
  assumes "roundtrip ser" and "\<forall>p ms. mset (arrival p ms) = mset ms" and "a \<noteq> b"
  shows "value_of (Reduce_tree subtract_reductor ser channel_num arrival par True
           (PNode r 10 [PNode a 3 [], PNode b 4 []])) = Some 11"
proof -
  have "distinct_children (PNode r (10::int) [PNode a 3 [], PNode b 4 []])"
    using assms(3) by simp
  from Reduce_tree_subtree_value[OF assms(1,2) this, of subtract_reductor channel_num par True]
  show ?thesis by (auto simp: subtract_reductor_def)
qed

theorem Reduce_subtraction_scenario_witness:
  "roundtrip int_ser \<and> (1::int) \<noteq> 2 \<and>
   value_of (Reduce_tree subtract_reductor int_ser 7 in_reverse_order 0 True tree_R_A_B)
     = Some 11"
proof -
  have r: "roundtrip int_ser"
    by (simp add: roundtrip_def int_ser_def)
  have p: "\<forall>p ms. mset (in_reverse_order p ms :: int Message list) = mset ms"
    by (simp add: in_reverse_order_def)
  have n: "(1::int) \<noteq> 2" by simp
  from Reduce_subtraction_scenario[OF r p n, of 7 0 0] r n
  show ?thesis by (simp only: tree_R_A_B_def simp_thms)
qed

section \<open>Degenerate and failing deliveries\<close>

text \<open>
  Claim C3. On a process whose topology reports zero children, \<open>Init\<close> already runs the
  finalisation: the completion signal is set, the caller's value is unchanged, the
  reductor has not been called, a root has sent nothing (another process has sent its
  value to its parent), and \<open>rpc::Reduce\<close> returns the contribution whatever arrives.
\<close>

theorem Reduce_without_children:
  assumes "n_children T = 0"
  shows "\<exists>t. ReduceTransaction_Init T Reduce ser channel_num v = Inr t \<and>
           cond t \<and> t_data t = v \<and> received t = [] \<and>
           count_list (trace t) Reduce_call = 0 \<and>
           sent (trace t) = upward T ser channel_num v \<and>
           (is_root T \<longrightarrow> sent (trace t) = []) \<and>
           rpc_Reduce T Reduce ser channel_num v arrivals = Returns v"
proof -
  have "rpc_Reduce T Reduce ser channel_num v arrivals = Returns v"
    using assms
    by (cases arrivals)
      (simp_all add: rpc_Reduce_def ReduceChannel_Doit_def ReduceChannel_Init_def
        ReduceTransaction_Init_def CheckStatus_def emit_def)
  then show ?thesis using assms
    by (simp add: ReduceTransaction_Init_def CheckStatus_def emit_def upward_def)
qed

theorem Reduce_without_children_witness:
  "n_children \<lparr>parent = 0, is_root = True, children = []\<rparr> = 0 \<and>
   ReduceTransaction_Init \<lparr>parent = 0, is_root = True, children = []\<rparr> subtract_reductor int_ser 7 10 =
     Inr \<lparr>t_channel = 7, trace = [Transaction_Init 7, Unregister 7, Done, Cond_Done],
          received = [], n_received = 0, t_data = 10, cond = True\<rparr> \<and>
   rpc_Reduce \<lparr>parent = 0, is_root = True, children = []\<rparr> subtract_reductor int_ser 7 10 [] =
     Returns 10"
proof -
  have n: "n_children \<lparr>parent = 0, is_root = True, children = []\<rparr> = 0"
    by (simp add: n_children_def)
  have i: "ReduceTransaction_Init \<lparr>parent = 0, is_root = True, children = []\<rparr> subtract_reductor int_ser 7 10 =
     Inr \<lparr>t_channel = 7, trace = [Transaction_Init 7, Unregister 7, Done, Cond_Done],
          received = [], n_received = 0, t_data = 10, cond = True\<rparr>"
    by (simp add: ReduceTransaction_Init_def CheckStatus_def emit_def n_children_def)
  from Reduce_without_children[OF n, of subtract_reductor int_ser 7 10 "[]"] n i
  show ?thesis by blast
qed

text \<open>
  On such a process the channel's \<open>Init\<close> registers the channel after the transaction's \<open>Init\<close>
  has run the finalisation, so \<open>rpc::Unregister\<close> comes before \<open>rpc::Register\<close>.
\<close>

lemma ReduceChannel_Doit_without_children:
  assumes "n_children T = 0"
  shows "\<exists>t. ReduceChannel_Doit T Reduce ser channel_num v arrivals = Returns t \<and>
     trace t = [Transaction_Init channel_num] @
       (if is_root T then []
        else [CreateMessage (parent T) (PointerFrozenSize ser v), Freeze,
              Send \<lparr>channel = channel_num, peer = parent T,
                    data_size = PointerFrozenSize ser v, data = PointerFreeze ser v\<rparr>]) @
       [Unregister channel_num, Done, Cond_Done, Register channel_num]"
  using assms
  by (cases arrivals)
    (simp_all add: ReduceChannel_Doit_def ReduceChannel_Init_def ReduceTransaction_Init_def
      CheckStatus_def emit_def)



section \<open>The finalisation\<close>



text \<open>
  Claim C10. \<open>Init\<close> establishes, and every call of \<open>HandleMessage\<close> that does not abort
  keeps, the invariant that the slot array has one slot per child, that \<open>n_received\<close> is the
  number of filled slots and that a filled slot \<open>i\<close> holds a message of \<open>child(i)\<close>; so it
  holds in every state reached from \<open>Init\<close>. Under it \<open>CheckStatus\<close> does not crash, and it
  runs the finalisation exactly when \<open>n_received\<close> equals the child count.
\<close>

theorem slots_invariant_maintained:
  fixes ser :: "('d, 'b) ot"
  shows
  "(\<exists>t0. ReduceTransaction_Init T Reduce ser channel_num v = Inr t0 \<and> slots_invariant T t0) \<and>
   (slots_invariant T t \<and> ReduceTransaction_HandleMessage T Reduce ser t m = Inr t' \<longrightarrow>
      slots_invariant T t') \<and>
   (Init_then T Reduce ser channel_num v ms = Inr t \<longrightarrow> slots_invariant T t) \<and>
   (slots_invariant T t \<longrightarrow>
      (\<exists>t'. CheckStatus T Reduce ser t = Inr t' \<and>
         count_list (trace t') Cond_Done =
           count_list (trace t) Cond_Done + (if n_received t = n_children T then 1 else 0)))"
proof (intro conjI impI)
  show "\<exists>t0. ReduceTransaction_Init T Reduce ser channel_num v = Inr t0 \<and> slots_invariant T t0"
    using Init_finalize_invariant[of T Reduce ser channel_num v] by blast
next
  assume "slots_invariant T t \<and> ReduceTransaction_HandleMessage T Reduce ser t m = Inr t'"
  then show "slots_invariant T t'" using HandleMessage_slots_invariant by blast
next
  assume a: "Init_then T Reduce ser channel_num v ms = Inr t"
  from Init_finalize_invariant[of T Reduce ser channel_num v] obtain t0 where
    t0: "ReduceTransaction_Init T Reduce ser channel_num v = Inr t0" "slots_invariant T t0"
    by blast
  with a have "HandleMessages T Reduce ser t0 ms = Inr t" by (simp add: Init_then_def)
  from HandleMessages_slots_invariant[OF t0(2) this] show "slots_invariant T t" .
next
  assume "slots_invariant T t"
  then show "\<exists>t'. CheckStatus T Reduce ser t = Inr t' \<and>
         count_list (trace t') Cond_Done =
           count_list (trace t) Cond_Done + (if n_received t = n_children T then 1 else 0)"
    by (rule CheckStatus_triggered)
qed

theorem slots_invariant_maintained_witness:
  "ReduceTransaction_Init topology_R subtract_reductor int_ser 7 10 = Inr waiting_R \<and>
   Init_then topology_R subtract_reductor int_ser 7 10 [] = Inr waiting_R \<and>
   slots_invariant topology_R waiting_R \<and>
   ReduceTransaction_HandleMessage topology_R subtract_reductor int_ser waiting_R
     (message_from 1 3) = Inr waiting_R_after_A \<and>
   slots_invariant topology_R waiting_R_after_A \<and>
   CheckStatus topology_R subtract_reductor int_ser waiting_R_after_A = Inr waiting_R_after_A"
proof -
  have i: "ReduceTransaction_Init topology_R subtract_reductor int_ser 7 10 = Inr waiting_R"
    by (simp add: ReduceTransaction_Init_def CheckStatus_def topology_R_def n_children_def
        waiting_R_def numeral_2_eq_2)
  then have j: "Init_then topology_R subtract_reductor int_ser 7 10 [] = Inr waiting_R"
    by (simp add: Init_then_def)
  have h: "ReduceTransaction_HandleMessage topology_R subtract_reductor int_ser waiting_R
     (message_from 1 3) = Inr waiting_R_after_A"
    by (simp add: ReduceTransaction_HandleMessage_def CheckStatus_def topology_R_def
        n_children_def waiting_R_def waiting_R_after_A_def message_from_def child_def emit_def
        numeral_2_eq_2)
  have c: "CheckStatus topology_R subtract_reductor int_ser waiting_R_after_A = Inr waiting_R_after_A"
    by (simp add: CheckStatus_def topology_R_def n_children_def waiting_R_after_A_def)
  note th = slots_invariant_maintained[of topology_R subtract_reductor int_ser 7 10 waiting_R
      "message_from 1 3" waiting_R_after_A "[]"]
  from th j have s0: "slots_invariant topology_R waiting_R" by blast
  with th h have s1: "slots_invariant topology_R waiting_R_after_A" by blast
  from i j s0 h s1 c show ?thesis by blast
qed

section \<open>The client call and the dispatcher\<close>

lemma response_HandleMessages:
  "response (foldl RpcRequestTransaction_HandleMessage t b) =
     (if b = [] then response t else Some (last b))"
  by (induction b arbitrary: t) (auto simp: RpcRequestTransaction_HandleMessage_def emit_def)

lemma Doit_wait_spurious:
  "response t = None \<Longrightarrow>
   \<exists>t'. Doit_wait t (replicate k [] @ [b @ [m]]) = Returns (m, t') \<and> response t' = Some m"
proof (induction k arbitrary: t)
  case 0
  then show ?case
    by (simp add: RpcRequestTransaction_HandleMessage_def emit_def)
next
  case (Suc k)
  have "response (emit [Wait] t) = None" using Suc.prems by (simp add: emit_def)
  from Suc.IH[OF this] Suc.prems show ?case by simp
qed

lemma Doit_wait_blocks:
  "response t = None \<Longrightarrow> \<exists>t'. Doit_wait t (replicate k []) = Blocks t' \<and> response t' = None"
proof (induction k arbitrary: t)
  case 0
  then show ?case by (simp add: emit_def)
next
  case (Suc k)
  have "response (emit [Wait] t) = None" using Suc.prems by (simp add: emit_def)
  from Suc.IH[OF this] Suc.prems show ?case by simp
qed

lemma Doit_wait_returns:
  "Doit_wait t waits = Returns (m, t') \<Longrightarrow>
   response t' = Some m \<and> (response t = Some m \<or> m \<in> set (concat waits))"
proof (induction waits arbitrary: t)
  case Nil
  then show ?case by (auto simp: emit_def split: option.splits)
next
  case (Cons b waits)
  show ?case
  proof (cases "response t")
    case None
    with Cons.prems have
      "Doit_wait (foldl RpcRequestTransaction_HandleMessage (emit [Wait] t) b) waits = Returns (m, t')"
      by simp
    from Cons.IH[OF this] have "response t' = Some m"
      and "response (foldl RpcRequestTransaction_HandleMessage (emit [Wait] t) b) = Some m \<or>
        m \<in> set (concat waits)" by simp_all
    then show ?thesis
      by (auto simp: response_HandleMessages emit_def None split: if_splits)
  next
    case (Some r)
    with Cons.prems show ?thesis by (auto simp: emit_def)
  qed
qed

text \<open>
  Claim C6. The client call creates a message for the target peer, sized to and holding
  the frozen request, records that there is no response yet and sends the message.
  When the request reaches a dispatcher whose handler answers it with \<open>r\<close>, and the
  serialisations thaw what they froze, the call returns \<open>r\<close>, whether the reply arrives
  before the caller takes its lock or after any number of wake-ups without cause. While
  nothing is handed to \<open>HandleMessage\<close> the call stays blocked, and whenever it returns,
  it returns a message that was handed to \<open>HandleMessage\<close> and is recorded as the response.
\<close>

theorem Rpc_call_returns_handler_response:
  fixes ser_q :: "('q, 'b) ot" and ser_r :: "('r, 'b) ot"
  assumes "roundtrip ser_q" and "roundtrip ser_r"
    and "HandleRequest request default_response = Inr r"
  shows "Doit_send ser_q channel_num server request =
           \<lparr>t_channel = channel_num,
            trace = [Transaction_Init channel_num,
                     CreateMessage server (PointerFrozenSize ser_q request), Freeze,
                     Send \<lparr>channel = channel_num, peer = server,
                           data_size = PointerFrozenSize ser_q request,
                           data = PointerFreeze ser_q request\<rparr>],
            response = None\<rparr> \<and>
         Rpc_exchange ser_q ser_r default_response HandleRequest channel_num me server request
           early spurious = Returns r \<and>
         (\<exists>t. RpcRequestTransaction_Doit ser_q channel_num server request []
                (replicate spurious []) = Blocks t \<and> response t = None) \<and>
         (RpcRequestTransaction_Doit ser_q channel_num server request arrived waits
            = Returns (m, t') \<longrightarrow>
          response t' = Some m \<and> m \<in> set (concat (arrived # waits)))"
proof (intro conjI)
  show "Doit_send ser_q channel_num server request =
           \<lparr>t_channel = channel_num,
            trace = [Transaction_Init channel_num,
                     CreateMessage server (PointerFrozenSize ser_q request), Freeze,
                     Send \<lparr>channel = channel_num, peer = server,
                           data_size = PointerFrozenSize ser_q request,
                           data = PointerFreeze ser_q request\<rparr>],
            response = None\<rparr>"
    by (simp add: Doit_send_def)
next
  let ?reply = "\<lparr>channel = channel_num, peer = server,
      data_size = PointerFrozenSize ser_r r, data = PointerFreeze ser_r r\<rparr>"
  have req: "deliveries me server (trace (Doit_send ser_q channel_num server request)) =
      [\<lparr>channel = channel_num, peer = me, data_size = PointerFrozenSize ser_q request,
        data = PointerFreeze ser_q request\<rparr>]"
    by (simp add: deliveries_def Doit_send_def)
  have rep: "deliveries server me (trace_of (dispatch ser_q ser_r default_response HandleRequest
      \<lparr>channel = channel_num, peer = me, data_size = PointerFrozenSize ser_q request,
        data = PointerFreeze ser_q request\<rparr>)) = [?reply]"
    using assms
    by (simp add: dispatch_def RemoteObjectTransaction_HandleMessage_def
        RemoteObjectBackend_GetTransaction_def roundtrip_def emit_def deliveries_def)
  have none: "response (emit [Lock] (Doit_send ser_q channel_num server request)) = None"
    by (simp add: emit_def Doit_send_def)
  from Doit_wait_spurious[OF none, of spurious "[]" ?reply] obtain t' where
    late: "Doit_wait (emit [Lock] (Doit_send ser_q channel_num server request))
      (replicate spurious [] @ [[?reply]]) = Returns (?reply, t')" by auto
  show "Rpc_exchange ser_q ser_r default_response HandleRequest channel_num me server request
           early spurious = Returns r"
  proof (cases early)
    case True
    then show ?thesis using assms(2)
      by (simp add: Rpc_exchange_def req rep Rpc_Request_def RpcRequestTransaction_Doit_def
          RpcRequestTransaction_HandleMessage_def emit_def roundtrip_def)
  next
    case False
    then show ?thesis using assms(2) late
      by (simp add: Rpc_exchange_def req rep Rpc_Request_def RpcRequestTransaction_Doit_def
          roundtrip_def)
  qed
next
  have none: "response (emit [Lock] (Doit_send ser_q channel_num server request)) = None"
    by (simp add: emit_def Doit_send_def)
  from Doit_wait_blocks[OF none, of spurious]
  show "\<exists>t. RpcRequestTransaction_Doit ser_q channel_num server request []
                (replicate spurious []) = Blocks t \<and> response t = None"
    by (simp add: RpcRequestTransaction_Doit_def)
next
  show "RpcRequestTransaction_Doit ser_q channel_num server request arrived waits
            = Returns (m, t') \<longrightarrow>
          response t' = Some m \<and> m \<in> set (concat (arrived # waits))"
  proof
    assume a: "RpcRequestTransaction_Doit ser_q channel_num server request arrived waits
            = Returns (m, t')"
    let ?t = "emit [Lock] (foldl RpcRequestTransaction_HandleMessage
                       (Doit_send ser_q channel_num server request) arrived)"
    from a have "Doit_wait ?t waits = Returns (m, t')"
      by (simp add: RpcRequestTransaction_Doit_def)
    from Doit_wait_returns[OF this]
    have r: "response t' = Some m" "response ?t = Some m \<or> m \<in> set (concat waits)"
      by simp_all
    have "response ?t = (if arrived = [] then None else Some (last arrived))"
      by (simp add: emit_def response_HandleMessages Doit_send_def)
    with r(2) have "m \<in> set (concat (arrived # waits))"
      by (auto split: if_splits)
    with r(1) show "response t' = Some m \<and> m \<in> set (concat (arrived # waits))" by simp
  qed
qed

theorem Rpc_call_returns_handler_response_witness:
  "roundtrip int_ser \<and> doubling_handler 21 0 = Inr 42 \<and>
   Rpc_exchange int_ser int_ser 0 doubling_handler 7 1 2 21 False 3 = Returns 42 \<and>
   Rpc_exchange int_ser int_ser 0 doubling_handler 7 1 2 21 True 0 = Returns 42 \<and>
   RpcRequestTransaction_Doit int_ser 7 2 21 [] [[], [message_from 2 42]] =
     Returns (message_from 2 42,
       \<lparr>t_channel = 7,
        trace = [Transaction_Init 7, CreateMessage 2 4, Freeze, Send (message_from 2 21),
                 Lock, Wait, Wait, Done, Lock, Signal, Unlock, Unlock],
        response = Some (message_from 2 42)\<rparr>) \<and>
   message_from 2 42 \<in> set (concat [[], [], [message_from 2 42]])"
proof -
  have r: "roundtrip int_ser" by (simp add: roundtrip_def int_ser_def)
  have h: "doubling_handler 21 0 = Inr 42" by (simp add: doubling_handler_def)
  have d: "RpcRequestTransaction_Doit int_ser 7 2 21 [] [[], [message_from 2 42]] =
     Returns (message_from 2 42,
       \<lparr>t_channel = 7,
        trace = [Transaction_Init 7, CreateMessage 2 4, Freeze, Send (message_from 2 21),
                 Lock, Wait, Wait, Done, Lock, Signal, Unlock, Unlock],
        response = Some (message_from 2 42)\<rparr>)"
    by (simp add: RpcRequestTransaction_Doit_def Doit_send_def
        RpcRequestTransaction_HandleMessage_def emit_def int_ser_def message_from_def)
  note th = Rpc_call_returns_handler_response[where ser_q = int_ser and ser_r = int_ser
      and HandleRequest = doubling_handler and request = 21 and default_response = 0
      and r = 42 and channel_num = 7 and server = 2 and me = 1, OF r r h]
  from th[of False 3 "[]" "[[], [message_from 2 42]]"] d
  have m: "message_from 2 42 \<in> set (concat [[], [], [message_from 2 42]])" by blast
  from th[of False 3] th[of True 0] r h d m show ?thesis by blast
qed

text \<open>
  Claim C9. \<open>HandleMessage\<close> of the client call has no guard: it records the message as the
  response whatever was recorded before, after the same four effects. So a second message
  replaces the first, and a caller that wakes up after both returns the second.
\<close>

theorem second_response_overwrites:
  "RpcRequestTransaction_HandleMessage t message =
     t\<lparr>trace := trace t @ [Done, Lock, Signal, Unlock], response := Some message\<rparr> \<and>
   response (RpcRequestTransaction_HandleMessage
     (RpcRequestTransaction_HandleMessage t first_message) message) = Some message \<and>
   (\<exists>t'. RpcRequestTransaction_Doit ser channel_num p request []
      [[first_message, message]] = Returns (message, t'))"
  by (simp add: RpcRequestTransaction_HandleMessage_def emit_def RpcRequestTransaction_Doit_def
      Doit_send_def)

text \<open>
  Claim C8. The default \<open>HandleRequest\<close> aborts for every request and never gives a
  response; a dispatcher that was left with it aborts on every request, right after the
  call of the handler, and sends no reply.
\<close>

theorem default_handler_aborts:
  "HandleRequest_default request response_p = Inl FATAL_virtuality_sucks \<and>
   RemoteObjectTransaction_HandleMessage ser_q ser_r default_response HandleRequest_default
     t message = Inl (FATAL_virtuality_sucks, emit [Thaw, Construct, HandleRequest_call] t) \<and>
   sent (trace_of (dispatch ser_q ser_r default_response HandleRequest_default message)) = []"
  by (simp add: HandleRequest_default_def RemoteObjectTransaction_HandleMessage_def
      dispatch_def RemoteObjectBackend_GetTransaction_def emit_def)

text \<open>
  Claim C7, as amended. For every request that the handler answers, the dispatcher does
  exactly this, in this order: thaw the payload, construct the default response, call
  the handler, create the reply message (addressed to the sender of the request, sized to
  the frozen response), free the request message, freeze the response into the reply,
  send the reply, mark the transaction done and destroy it. The one message sent is the
  reply, on the channel of the request.
\<close>

theorem dispatcher_steps:
  assumes "HandleRequest (PointerThaw ser_q (data request)) default_response = Inr r"
  shows "RemoteObjectTransaction_HandleMessage ser_q ser_r default_response HandleRequest
           t request =
         Inr (t\<lparr>trace := trace t @
                [Thaw, Construct, HandleRequest_call,
                 CreateMessage (peer request) (PointerFrozenSize ser_r r),
                 Delete request, Freeze,
                 Send \<lparr>channel = t_channel t, peer = peer request,
                       data_size = PointerFrozenSize ser_r r, data = PointerFreeze ser_r r\<rparr>,
                 Done, Delete_this]\<rparr>) \<and>
         sent (trace_of (dispatch ser_q ser_r default_response HandleRequest request)) =
           [\<lparr>channel = channel request, peer = peer request,
             data_size = PointerFrozenSize ser_r r, data = PointerFreeze ser_r r\<rparr>]"
  using assms
  by (simp add: RemoteObjectTransaction_HandleMessage_def dispatch_def
      RemoteObjectBackend_GetTransaction_def emit_def)

theorem dispatcher_steps_witness:
  "doubling_handler (PointerThaw int_ser (data (message_from 5 21))) 0 = Inr 42 \<and>
   trace_of (dispatch int_ser int_ser 0 doubling_handler (message_from 5 21)) =
     [Transaction_Init 7, Thaw, Construct, HandleRequest_call, CreateMessage 5 4,
      Delete (message_from 5 21), Freeze, Send (message_from 5 42), Done, Delete_this] \<and>
   sent (trace_of (dispatch int_ser int_ser 0 doubling_handler (message_from 5 21))) =
     [message_from 5 42]"
proof -
  have h: "doubling_handler (PointerThaw int_ser (data (message_from 5 21))) 0 = Inr 42"
    by (simp add: doubling_handler_def int_ser_def message_from_def)
  have t: "trace_of (dispatch int_ser int_ser 0 doubling_handler (message_from 5 21)) =
     [Transaction_Init 7, Thaw, Construct, HandleRequest_call, CreateMessage 5 4,
      Delete (message_from 5 21), Freeze, Send (message_from 5 42), Done, Delete_this]"
    using dispatcher_steps[where HandleRequest = doubling_handler and ser_q = int_ser
        and ser_r = int_ser and request = "message_from 5 21" and default_response = 0
        and r = 42 and t = "RemoteObjectBackend_GetTransaction (message_from 5 21)", OF h]
    by (simp add: dispatch_def RemoteObjectBackend_GetTransaction_def message_from_def int_ser_def)
  from dispatcher_steps[where HandleRequest = doubling_handler and ser_q = int_ser
        and ser_r = int_ser and request = "message_from 5 21" and default_response = 0
        and r = 42, OF h] h t show ?thesis
    by (simp add: message_from_def int_ser_def)
qed

text \<open>
  Claim C7 as stated fails: the request message is not freed right after thawing. After
  \<open>Thaw\<close> comes the construction of the response; the request is freed after the handler
  has been called and the reply message has been created.
\<close>

theorem request_freed_after_handler_counterexample:
  "next_after Thaw (trace_of (dispatch int_ser int_ser 0 doubling_handler (message_from 5 21)))
     = Some Construct \<and>
   next_after Thaw (trace_of (dispatch int_ser int_ser 0 doubling_handler (message_from 5 21)))
     \<noteq> Some (Delete (message_from 5 21)) \<and>
   next_after HandleRequest_call
     (trace_of (dispatch int_ser int_ser 0 doubling_handler (message_from 5 21)))
     = Some (CreateMessage 5 4) \<and>
   next_after (CreateMessage 5 4)
     (trace_of (dispatch int_ser int_ser 0 doubling_handler (message_from 5 21)))
     = Some (Delete (message_from 5 21))"
  by (simp add: dispatch_def RemoteObjectTransaction_HandleMessage_def
      RemoteObjectBackend_GetTransaction_def emit_def doubling_handler_def int_ser_def
      message_from_def)

end
